theory Spec2Isabelle
  imports Main "HOL-Library.Word"
begin

unbundle bit_operations_syntax

section \<open>The identifier constants of id.h\<close>

text \<open>
  \<^verbatim>\<open>avrfid.S\<close> includes \<^verbatim>\<open>id.h\<close>, which is not part of the sources at hand. It supplies
  five integer constants to the preprocessor. They are parameters of everything below;
  each is a non-negative integer literal of any size.
\<close>

record ids =
  EM4102_MFR_ID :: nat
  EM4102_MFR_ID2 :: nat
  EM4102_UNIQUE_ID0 :: nat
  EM4102_UNIQUE_ID1 :: nat
  EM4102_UNIQUE_ID2 :: nat

section \<open>The parity macros\<close>

text \<open>
  \<^verbatim>\<open>#define ROW_PARITY(n) ( (((n) & 0xF) << 1) | (((n) ^ ((n) >> 1) ^ ((n) >> 2) ^ ((n) >> 3)) & 1) )\<close>
\<close>

definition ROW_PARITY :: "nat \<Rightarrow> nat" where
  "ROW_PARITY n =
     (push_bit 1 (n AND 0xF)) OR
     ((n XOR (drop_bit 1 n) XOR (drop_bit 2 n) XOR (drop_bit 3 n)) AND 1)"

text \<open>
  The three column parity macros are the same expression over a manufacturer constant
  and a unique-ID constant; \<open>COLUMN_PARITY\<close> is that expression, and the three macros
  of the source instantiate it as the source does.
\<close>

definition COLUMN_PARITY :: "nat \<Rightarrow> nat \<Rightarrow> nat" where
  "COLUMN_PARITY mfr uid =
     (drop_bit 4 mfr) XOR mfr XOR
     (drop_bit 28 uid) XOR (drop_bit 24 uid) XOR (drop_bit 20 uid) XOR (drop_bit 16 uid) XOR
     (drop_bit 12 uid) XOR (drop_bit 8 uid) XOR (drop_bit 4 uid) XOR uid"

definition COLUMN_PARITY0 :: "ids \<Rightarrow> nat" where
  "COLUMN_PARITY0 c = COLUMN_PARITY (EM4102_MFR_ID c) (EM4102_UNIQUE_ID0 c)"

definition COLUMN_PARITY1 :: "ids \<Rightarrow> nat" where
  "COLUMN_PARITY1 c = COLUMN_PARITY (EM4102_MFR_ID c) (EM4102_UNIQUE_ID1 c)"

definition COLUMN_PARITY2 :: "ids \<Rightarrow> nat" where
  "COLUMN_PARITY2 c = COLUMN_PARITY (EM4102_MFR_ID2 c) (EM4102_UNIQUE_ID2 c)"

section \<open>Instructions and assembler macros\<close>

datatype label =
  Lemulateid0 | Lemulateid1 | Lemulateid2 | Lbaseband30_0 | Lbaseband30_1 | Lbaseband30

text \<open>
  The AVR instructions the file uses. \<open>RJMP_next\<close> is \<^verbatim>\<open>rjmp .+0\<close>, a jump to the
  following instruction; \<open>LDI_r16\<close> and \<open>OUT_DDRB_r16\<close> are the only uses of
  \<^verbatim>\<open>ldi\<close> and \<^verbatim>\<open>out\<close>.
\<close>

datatype instr =
  RCALL label | RJMP label | RJMP_next | NOP | LDI_r16 "8 word" | OUT_DDRB_r16 | RET

text \<open>Clock cycles per instruction, as the comments of the source count them.\<close>

fun cycles_of :: "instr \<Rightarrow> nat" where
  "cycles_of (RCALL l) = 3"
| "cycles_of (RJMP l) = 2"
| "cycles_of RJMP_next = 2"
| "cycles_of NOP = 1"
| "cycles_of (LDI_r16 v) = 1"
| "cycles_of OUT_DDRB_r16 = 1"
| "cycles_of RET = 4"

text \<open>\<^verbatim>\<open>#define OUT_PINS _BV(PINB3) | _BV(PINB4)\<close>, with \<^verbatim>\<open>PINB3 = 3\<close> and \<^verbatim>\<open>PINB4 = 4\<close>.\<close>

definition OUT_PINS :: "8 word" where
  "OUT_PINS = push_bit 3 1 OR push_bit 4 1"

text \<open>
  \<^verbatim>\<open>.macro delay cycles\<close>: an \<^verbatim>\<open>rjmp .+0\<close> while more than one cycle is left, then a
  \<^verbatim>\<open>nop\<close> for an odd one.
\<close>

function delay :: "nat \<Rightarrow> instr list" where
  "delay cycles =
     (if cycles > 1 then RJMP_next # delay (cycles - 2)
      else if cycles > 0 then NOP # delay (cycles - 1)
      else [])"
  by pat_completeness auto
termination
  by (relation "measure (\<lambda>cycles. cycles)") auto

declare delay.simps [simp del]

definition baseband_0 :: "instr list" where
  "baseband_0 = [RCALL Lbaseband30_0, RJMP_next]"

definition baseband_1 :: "instr list" where
  "baseband_1 = [RCALL Lbaseband30_1, RJMP_next]"

text \<open>
  \<^verbatim>\<open>.macro manchester bit, count=1\<close>: nothing when \<open>count\<close> is zero; otherwise the
  expansion for \<open>bit >> 1\<close> and \<open>count - 1\<close>, followed by the two half-bits of the lowest
  bit.
\<close>

fun manchester :: "nat \<Rightarrow> nat \<Rightarrow> instr list" where
  "manchester bit_arg 0 = []"
| "manchester bit_arg (Suc count) =
     manchester (drop_bit 1 bit_arg) count @
     (if bit_arg AND 1 \<noteq> 0 then baseband_1 @ baseband_0 else baseband_0 @ baseband_1)"

definition stop_bit :: "instr list" where
  "stop_bit = manchester 0 1"

definition header :: "instr list" where
  "header = manchester 0x1FF 9"

section \<open>The three packet assemblers and the baseband routines\<close>

definition emulateid0 :: "ids \<Rightarrow> instr list" where
  "emulateid0 c =
     header @
     manchester (ROW_PARITY (drop_bit 4 (EM4102_MFR_ID c))) 5 @
     manchester (ROW_PARITY (drop_bit 0 (EM4102_MFR_ID c))) 5 @
     manchester (ROW_PARITY (drop_bit 28 (EM4102_UNIQUE_ID0 c))) 5 @
     manchester (ROW_PARITY (drop_bit 24 (EM4102_UNIQUE_ID0 c))) 5 @
     manchester (ROW_PARITY (drop_bit 20 (EM4102_UNIQUE_ID0 c))) 5 @
     manchester (ROW_PARITY (drop_bit 16 (EM4102_UNIQUE_ID0 c))) 5 @
     manchester (ROW_PARITY (drop_bit 12 (EM4102_UNIQUE_ID0 c))) 5 @
     manchester (ROW_PARITY (drop_bit 8 (EM4102_UNIQUE_ID0 c))) 5 @
     manchester (ROW_PARITY (drop_bit 4 (EM4102_UNIQUE_ID0 c))) 5 @
     manchester (ROW_PARITY (drop_bit 0 (EM4102_UNIQUE_ID0 c))) 5 @
     manchester (COLUMN_PARITY0 c) 4 @
     stop_bit @
     [RJMP Lemulateid0]"

definition emulateid1 :: "ids \<Rightarrow> instr list" where
  "emulateid1 c =
     header @
     manchester (ROW_PARITY (drop_bit 4 (EM4102_MFR_ID c))) 5 @
     manchester (ROW_PARITY (drop_bit 0 (EM4102_MFR_ID c))) 5 @
     manchester (ROW_PARITY (drop_bit 28 (EM4102_UNIQUE_ID1 c))) 5 @
     manchester (ROW_PARITY (drop_bit 24 (EM4102_UNIQUE_ID1 c))) 5 @
     manchester (ROW_PARITY (drop_bit 20 (EM4102_UNIQUE_ID1 c))) 5 @
     manchester (ROW_PARITY (drop_bit 16 (EM4102_UNIQUE_ID1 c))) 5 @
     manchester (ROW_PARITY (drop_bit 12 (EM4102_UNIQUE_ID1 c))) 5 @
     manchester (ROW_PARITY (drop_bit 8 (EM4102_UNIQUE_ID1 c))) 5 @
     manchester (ROW_PARITY (drop_bit 4 (EM4102_UNIQUE_ID1 c))) 5 @
     manchester (ROW_PARITY (drop_bit 0 (EM4102_UNIQUE_ID1 c))) 5 @
     manchester (COLUMN_PARITY1 c) 4 @
     stop_bit @
     [RJMP Lemulateid1]"

definition emulateid2 :: "ids \<Rightarrow> instr list" where
  "emulateid2 c =
     header @
     manchester (ROW_PARITY (drop_bit 4 (EM4102_MFR_ID2 c))) 5 @
     manchester (ROW_PARITY (drop_bit 0 (EM4102_MFR_ID2 c))) 5 @
     manchester (ROW_PARITY (drop_bit 28 (EM4102_UNIQUE_ID2 c))) 5 @
     manchester (ROW_PARITY (drop_bit 24 (EM4102_UNIQUE_ID2 c))) 5 @
     manchester (ROW_PARITY (drop_bit 20 (EM4102_UNIQUE_ID2 c))) 5 @
     manchester (ROW_PARITY (drop_bit 16 (EM4102_UNIQUE_ID2 c))) 5 @
     manchester (ROW_PARITY (drop_bit 12 (EM4102_UNIQUE_ID2 c))) 5 @
     manchester (ROW_PARITY (drop_bit 8 (EM4102_UNIQUE_ID2 c))) 5 @
     manchester (ROW_PARITY (drop_bit 4 (EM4102_UNIQUE_ID2 c))) 5 @
     manchester (ROW_PARITY (drop_bit 0 (EM4102_UNIQUE_ID2 c))) 5 @
     manchester (COLUMN_PARITY2 c) 4 @
     stop_bit @
     [RJMP Lemulateid2]"

definition baseband30_0 :: "instr list" where
  "baseband30_0 = [LDI_r16 0, RJMP Lbaseband30]"

definition baseband30_1 :: "instr list" where
  "baseband30_1 = [LDI_r16 OUT_PINS, RJMP Lbaseband30]"

definition baseband30 :: "instr list" where
  "baseband30 = OUT_DDRB_r16 # delay 19 @ [RET]"

text \<open>The code that starts at each label.\<close>

fun program :: "ids \<Rightarrow> label \<Rightarrow> instr list" where
  "program c Lemulateid0 = emulateid0 c"
| "program c Lemulateid1 = emulateid1 c"
| "program c Lemulateid2 = emulateid2 c"
| "program c Lbaseband30_0 = baseband30_0"
| "program c Lbaseband30_1 = baseband30_1"
| "program c Lbaseband30 = baseband30"

section \<open>Execution\<close>

text \<open>
  The machine state: \<open>code\<close> is the instruction sequence from the program counter on,
  \<open>stack\<close> holds the return addresses pushed since the routine was entered (each the
  code after its \<^verbatim>\<open>rcall\<close>), \<open>clock\<close> counts the cycles spent, and \<open>out_trace\<close> lists
  every write to DDRB with the cycle at which its \<^verbatim>\<open>out\<close> starts.
\<close>

record mstate =
  code :: "instr list"
  stack :: "instr list list"
  r16 :: "8 word"
  DDRB :: "8 word"
  clock :: nat
  out_trace :: "(nat \<times> 8 word) list"

text \<open>
  One instruction. \<open>None\<close> means control leaves the routine: a \<^verbatim>\<open>ret\<close> with no
  return address of the routine's own left (a return to the caller), or no instruction
  left.
\<close>

fun step :: "ids \<Rightarrow> mstate \<Rightarrow> mstate option" where
  "step c s =
     (case code s of
        [] \<Rightarrow> None
      | i # rest \<Rightarrow>
          (case i of
             RCALL l \<Rightarrow>
               Some (s\<lparr>code := program c l, stack := rest # stack s, clock := clock s + cycles_of i\<rparr>)
           | RJMP l \<Rightarrow>
               Some (s\<lparr>code := program c l, clock := clock s + cycles_of i\<rparr>)
           | RJMP_next \<Rightarrow>
               Some (s\<lparr>code := rest, clock := clock s + cycles_of i\<rparr>)
           | NOP \<Rightarrow>
               Some (s\<lparr>code := rest, clock := clock s + cycles_of i\<rparr>)
           | LDI_r16 v \<Rightarrow>
               Some (s\<lparr>code := rest, r16 := v, clock := clock s + cycles_of i\<rparr>)
           | OUT_DDRB_r16 \<Rightarrow>
               Some (s\<lparr>code := rest, DDRB := r16 s, clock := clock s + cycles_of i,
                       out_trace := out_trace s @ [(clock s, r16 s)]\<rparr>)
           | RET \<Rightarrow>
               (case stack s of
                  [] \<Rightarrow> None
                | ra # st \<Rightarrow> Some (s\<lparr>code := ra, stack := st, clock := clock s + cycles_of i\<rparr>))))"

declare step.simps [simp del]

text \<open>\<open>exec c n s\<close> runs \<open>n\<close> instructions from \<open>s\<close>.\<close>

fun exec :: "ids \<Rightarrow> nat \<Rightarrow> mstate \<Rightarrow> mstate option" where
  "exec c 0 s = Some s"
| "exec c (Suc n) s = (case step c s of None \<Rightarrow> None | Some s' \<Rightarrow> exec c n s')"

section \<open>What a reader sees\<close>

text \<open>
  The DDRB values written while \<open>n\<close> instructions run from \<open>s\<close>, in order; \<open>None\<close> if
  control leaves the routine before.
\<close>

definition emitted :: "ids \<Rightarrow> nat \<Rightarrow> mstate \<Rightarrow> 8 word list option" where
  "emitted c n s =
     (case exec c n s of
        None \<Rightarrow> None
      | Some t \<Rightarrow> Some (map snd (drop (length (out_trace s)) (out_trace t))))"

text \<open>
  The reader's fixed rule for the tag's polarity: the pins driven and then released is a
  logical 1, released and then driven is a logical 0, anything else is no bit.
\<close>

fun demanchester :: "8 word list \<Rightarrow> bool list option" where
  "demanchester [] = Some []"
| "demanchester [a] = None"
| "demanchester (a # b # r) =
     (if a = OUT_PINS \<and> b = 0 then map_option (\<lambda>bs. True # bs) (demanchester r)
      else if a = 0 \<and> b = OUT_PINS then map_option (\<lambda>bs. False # bs) (demanchester r)
      else None)"

text \<open>
  The three entry points that \<^verbatim>\<open>avrfid.S\<close> exports and \<^verbatim>\<open>test.c\<close> declares, one per
  select input.
\<close>

datatype slot = Slot0 | Slot1 | Slot2

fun entry :: "slot \<Rightarrow> label" where
  "entry Slot0 = Lemulateid0"
| "entry Slot1 = Lemulateid1"
| "entry Slot2 = Lemulateid2"

text \<open>
  One pass over a packet assembler executes 128 half-bit invocations of 16 instructions
  each and the closing \<^verbatim>\<open>rjmp\<close>.
\<close>

definition frame_steps :: nat where
  "frame_steps = 128 * 16 + 1"

text \<open>
  The logical bits a reader decodes from the first pass of slot \<open>k\<close>, entered in machine
  state \<open>s\<close>.
\<close>

definition first_frame :: "ids \<Rightarrow> slot \<Rightarrow> mstate \<Rightarrow> bool list option" where
  "first_frame c k s =
     (case emitted c frame_steps (s\<lparr>code := program c (entry k)\<rparr>) of
        None \<Rightarrow> None
      | Some w \<Rightarrow> demanchester w)"

section \<open>Auxiliary notions for the proofs\<close>

text \<open>The bits \<open>n - 1\<close> down to \<open>0\<close> of \<open>v\<close>.\<close>

definition field_bits :: "nat \<Rightarrow> nat \<Rightarrow> bool list" where
  "field_bits v n = map (bit v) (rev [0..<n])"

text \<open>The invocation and the DDRB value of a half-bit.\<close>

definition bb :: "bool \<Rightarrow> instr list" where
  "bb b = (if b then baseband_1 else baseband_0)"

definition pin :: "bool \<Rightarrow> 8 word" where
  "pin b = (if b then OUT_PINS else 0)"

definition halves :: "bool list \<Rightarrow> bool list" where
  "halves bs = concat (map (\<lambda>b. [b, \<not> b]) bs)"

text \<open>The effect of one half-bit invocation, and of a sequence of them, on the machine state.\<close>

definition half_effect :: "bool \<Rightarrow> mstate \<Rightarrow> mstate" where
  "half_effect b s =
     s\<lparr>r16 := pin b, DDRB := pin b, clock := clock s + 32,
       out_trace := out_trace s @ [(clock s + 6, pin b)]\<rparr>"

fun play :: "bool list \<Rightarrow> mstate \<Rightarrow> mstate" where
  "play [] s = s"
| "play (b # bs) s = play bs (half_effect b s)"

text \<open>The 64 logical bits of the frame of a manufacturer constant and a unique-ID constant.\<close>

definition frame_bits :: "nat \<Rightarrow> nat \<Rightarrow> bool list" where
  "frame_bits mfr uid =
     field_bits 0x1FF 9 @
     field_bits (ROW_PARITY (drop_bit 4 mfr)) 5 @
     field_bits (ROW_PARITY (drop_bit 0 mfr)) 5 @
     field_bits (ROW_PARITY (drop_bit 28 uid)) 5 @
     field_bits (ROW_PARITY (drop_bit 24 uid)) 5 @
     field_bits (ROW_PARITY (drop_bit 20 uid)) 5 @
     field_bits (ROW_PARITY (drop_bit 16 uid)) 5 @
     field_bits (ROW_PARITY (drop_bit 12 uid)) 5 @
     field_bits (ROW_PARITY (drop_bit 8 uid)) 5 @
     field_bits (ROW_PARITY (drop_bit 4 uid)) 5 @
     field_bits (ROW_PARITY (drop_bit 0 uid)) 5 @
     field_bits (COLUMN_PARITY mfr uid) 4 @
     field_bits 0 1"

text \<open>The constants each packet assembler reads.\<close>

fun mfr_of :: "ids \<Rightarrow> slot \<Rightarrow> nat" where
  "mfr_of c Slot0 = EM4102_MFR_ID c"
| "mfr_of c Slot1 = EM4102_MFR_ID c"
| "mfr_of c Slot2 = EM4102_MFR_ID2 c"

fun uid_of :: "ids \<Rightarrow> slot \<Rightarrow> nat" where
  "uid_of c Slot0 = EM4102_UNIQUE_ID0 c"
| "uid_of c Slot1 = EM4102_UNIQUE_ID1 c"
| "uid_of c Slot2 = EM4102_UNIQUE_ID2 c"

text \<open>The effect of one pass over the packet assembler of slot \<open>k\<close>.\<close>

definition pass :: "ids \<Rightarrow> slot \<Rightarrow> mstate \<Rightarrow> mstate" where
  "pass c k s =
     (play (halves (frame_bits (mfr_of c k) (uid_of c k))) s)
       \<lparr>code := program c (entry k), clock := clock s + 4098\<rparr>"

section \<open>A reader's frame check\<close>

text \<open>
  The EM4102 check a reader applies to 64 logical bits: nine header ones, ten rows of
  four data bits and an even-parity bit, four column parity bits that make every column
  even, and a zero stop bit. The first two rows carry the manufacturer code, the other
  eight the unique code, most significant nibble first.
\<close>

definition ones :: "bool list \<Rightarrow> nat" where
  "ones bs = length (filter (\<lambda>b. b) bs)"

definition even_parity :: "bool list \<Rightarrow> bool" where
  "even_parity bs = even (ones bs)"

fun xor_all :: "bool list \<Rightarrow> bool" where
  "xor_all [] = False"
| "xor_all (b # bs) = (b \<noteq> xor_all bs)"

definition rows :: "bool list \<Rightarrow> bool list list" where
  "rows f = map (\<lambda>g. take 5 (drop (9 + 5 * g) f)) [0..<10]"

definition column :: "bool list \<Rightarrow> nat \<Rightarrow> bool list" where
  "column f i = map (\<lambda>r. r ! i) (rows f)"

definition bits_val :: "bool list \<Rightarrow> nat" where
  "bits_val bs = foldl (\<lambda>a b. 2 * a + (if b then 1 else 0)) 0 bs"

definition decode :: "bool list \<Rightarrow> (nat \<times> nat) option" where
  "decode f =
     (if length f = 64 \<and> take 9 f = replicate 9 True \<and> drop 63 f = [False] \<and>
         list_all even_parity (rows f) \<and>
         list_all (\<lambda>i. even_parity (column f i @ [f ! (59 + i)])) [0..<4]
      then Some (bits_val (concat (map (take 4) (take 2 (rows f)))),
                 bits_val (concat (map (take 4) (drop 2 (rows f)))))
      else None)"

section \<open>The selector loop of test.c\<close>

text \<open>
  \<^verbatim>\<open>loop()\<close> tests the three select inputs in turn, \<^verbatim>\<open>if(!(PINB & _BV(PINBk))) emulateidk();\<close>
  and \<^verbatim>\<open>main\<close> calls \<^verbatim>\<open>loop()\<close> forever. The state of the whole device is the machine
  state, the \<^verbatim>\<open>if\<close> statement that is next (or whose call is running), and whether a
  call is running.
\<close>

record sys =
  machine :: mstate
  pos :: slot
  in_call :: bool

fun select_pin :: "slot \<Rightarrow> nat" where
  "select_pin Slot0 = 0"
| "select_pin Slot1 = 1"
| "select_pin Slot2 = 2"

definition selected :: "8 word \<Rightarrow> slot \<Rightarrow> bool" where
  "selected pinb k = (pinb AND push_bit (select_pin k) 1 = 0)"

text \<open>After the third \<^verbatim>\<open>if\<close>, \<^verbatim>\<open>loop()\<close> returns and \<^verbatim>\<open>main\<close> calls it again.\<close>

fun next_if :: "slot \<Rightarrow> slot" where
  "next_if Slot0 = Slot1"
| "next_if Slot1 = Slot2"
| "next_if Slot2 = Slot0"

text \<open>
  One tick with the value \<open>pinb\<close> on the input port: while a call runs, one instruction
  of it, and the next \<^verbatim>\<open>if\<close> once it returns; otherwise the test of the current
  \<^verbatim>\<open>if\<close>, which enters the slot's packet assembler (with no return address of its
  own yet) or moves on. The inputs have pull-ups, so a select input is asserted when its
  bit reads 0.
\<close>

definition tick :: "ids \<Rightarrow> 8 word \<Rightarrow> sys \<Rightarrow> sys" where
  "tick c pinb y =
     (if in_call y then
        (case step c (machine y) of
           Some m \<Rightarrow> y\<lparr>machine := m\<rparr>
         | None \<Rightarrow> y\<lparr>pos := next_if (pos y), in_call := False\<rparr>)
      else if selected pinb (pos y) then
        y\<lparr>machine := (machine y)\<lparr>stack := [], code := program c (entry (pos y))\<rparr>,
          in_call := True\<rparr>
      else y\<lparr>pos := next_if (pos y)\<rparr>)"

text \<open>The device run over a sequence of input port values, one per tick.\<close>

fun run :: "ids \<Rightarrow> 8 word list \<Rightarrow> sys \<Rightarrow> sys" where
  "run c [] y = y"
| "run c (p # ps) y = run c ps (tick c p y)"

text \<open>\<^verbatim>\<open>main\<close> starts at the first \<^verbatim>\<open>if\<close> with no call running.\<close>

definition boot :: "mstate \<Rightarrow> sys" where
  "boot m = \<lparr>machine = m, pos = Slot0, in_call = False\<rparr>"

text \<open>
  The policy in the specification's words: the first asserted select input in the order
  slot 0, slot 1, slot 2 wins; none asserted selects nothing.
\<close>

definition spec_first_match :: "8 word \<Rightarrow> slot option" where
  "spec_first_match pinb =
     (if selected pinb Slot0 then Some Slot0
      else if selected pinb Slot1 then Some Slot1
      else if selected pinb Slot2 then Some Slot2
      else None)"

text \<open>
  The same policy from the \<^verbatim>\<open>if\<close> of slot \<open>q\<close> on, in the cyclic order of the tests: the
  first asserted select input among \<open>q\<close> and the two slots tested after it.
\<close>

definition spec_first_checked :: "slot \<Rightarrow> 8 word \<Rightarrow> slot option" where
  "spec_first_checked q pinb =
     (if selected pinb q then Some q
      else if selected pinb (next_if q) then Some (next_if q)
      else if selected pinb (next_if (next_if q)) then Some (next_if (next_if q))
      else None)"

text \<open>
  The port values \<open>ps\<close>, one per test and starting with the test of slot \<open>q\<close>, let every
  test find its own select input not asserted.
\<close>

fun idle_from :: "slot \<Rightarrow> 8 word list \<Rightarrow> bool" where
  "idle_from q [] = True"
| "idle_from q (p # ps) = (\<not> selected p q \<and> idle_from (next_if q) ps)"

text \<open>The \<^verbatim>\<open>if\<close> that runs after \<open>n\<close> tests have found nothing, counted from power-on.\<close>

definition test_at :: "nat \<Rightarrow> slot" where
  "test_at n = (next_if ^^ n) Slot0"

section \<open>The payload as the code and as the specification have it\<close>

text \<open>
  The arguments of \<open>ROW_PARITY\<close> in the ten row lines of a packet assembler, in the
  order of the lines; \<open>ROW_PARITY\<close> keeps the low nibble of each.
\<close>

definition nibble_args :: "nat \<Rightarrow> nat \<Rightarrow> nat list" where
  "nibble_args mfr uid =
     [drop_bit 4 mfr, mfr, drop_bit 28 uid, drop_bit 24 uid, drop_bit 20 uid, drop_bit 16 uid,
      drop_bit 12 uid, drop_bit 8 uid, drop_bit 4 uid, uid]"

definition payload_nibbles :: "nat \<Rightarrow> nat \<Rightarrow> nat list" where
  "payload_nibbles mfr uid = map (\<lambda>n. n AND 0xF) (nibble_args mfr uid)"

text \<open>
  The specification's payload: the two nibbles of an 8-bit manufacturer code and the ten
  nibbles of a 40-bit unique code, and the column parity as the XOR of all twelve.
\<close>

definition spec_nibbles :: "nat \<Rightarrow> nat \<Rightarrow> nat list" where
  "spec_nibbles mfr uid =
     [drop_bit 4 mfr AND 0xF, mfr AND 0xF] @
     map (\<lambda>i. drop_bit (4 * i) uid AND 0xF) (rev [0..<10])"

definition spec_column_parity :: "nat \<Rightarrow> nat \<Rightarrow> nat" where
  "spec_column_parity mfr uid = foldr (\<lambda>a b. a XOR b) (spec_nibbles mfr uid) 0"

text \<open>The constants cut to the bits the packet assemblers read.\<close>

definition low_bits :: "ids \<Rightarrow> ids" where
  "low_bits c =
     \<lparr>EM4102_MFR_ID = take_bit 8 (EM4102_MFR_ID c),
      EM4102_MFR_ID2 = take_bit 8 (EM4102_MFR_ID2 c),
      EM4102_UNIQUE_ID0 = take_bit 32 (EM4102_UNIQUE_ID0 c),
      EM4102_UNIQUE_ID1 = take_bit 32 (EM4102_UNIQUE_ID1 c),
      EM4102_UNIQUE_ID2 = take_bit 32 (EM4102_UNIQUE_ID2 c)\<rparr>"

text \<open>
  A concrete build and machine state for evaluation: the identifier of the
  specification's scenario in slot 0, and the machine after reset.
\<close>

definition example_ids :: ids where
  "example_ids =
     \<lparr>EM4102_MFR_ID = 0x12, EM4102_MFR_ID2 = 0x7F, EM4102_UNIQUE_ID0 = 0x3456789A,
      EM4102_UNIQUE_ID1 = 0xDEADBEEF, EM4102_UNIQUE_ID2 = 0\<rparr>"

definition reset_state :: mstate where
  "reset_state = \<lparr>code = [], stack = [], r16 = 0, DDRB = 0, clock = 0, out_trace = []\<rparr>"

section \<open>Execution of the macro expansions\<close>

lemma exec_add:
  "exec c (m + n) s = (case exec c m s of None \<Rightarrow> None | Some t \<Rightarrow> exec c n t)"
  by (induction m arbitrary: s) (auto split: option.splits)

lemma exec_numeral:
  "exec c (numeral k) s = (case step c s of None \<Rightarrow> None | Some s' \<Rightarrow> exec c (pred_numeral k) s')"
  by (simp add: numeral_eq_Suc)

lemma exec_1: "exec c 1 s = step c s"
  by (simp split: option.splits)

lemma delay_19: "delay 19 = [RJMP_next, RJMP_next, RJMP_next, RJMP_next, RJMP_next, RJMP_next, RJMP_next, RJMP_next, RJMP_next, NOP]"
  by (simp add: delay.simps)

lemma exec_bb:
  "exec c 16 (s\<lparr>code := bb b @ rest\<rparr>) = Some ((half_effect b s)\<lparr>code := rest\<rparr>)"
  by (cases b)
     (simp_all add: bb_def pin_def baseband_0_def baseband_1_def baseband30_0_def baseband30_1_def
       baseband30_def delay_19 step.simps exec_numeral exec_1 half_effect_def)

lemma exec_play:
  "exec c (16 * length bs) (s\<lparr>code := concat (map bb bs) @ rest\<rparr>) = Some ((play bs s)\<lparr>code := rest\<rparr>)"
proof (induction bs arbitrary: s)
  case Nil show ?case by simp
next
  case (Cons b bs)
  have e1: "exec c 16 (s\<lparr>code := bb b @ (concat (map bb bs) @ rest)\<rparr>) = Some ((half_effect b s)\<lparr>code := concat (map bb bs) @ rest\<rparr>)"
    by (rule exec_bb)
  have "exec c (16 + 16 * length bs) (s\<lparr>code := bb b @ (concat (map bb bs) @ rest)\<rparr>)
      = Some ((play (b # bs) s)\<lparr>code := rest\<rparr>)"
    by (simp only: exec_add e1 option.case Cons.IH play.simps)
  then show ?case by simp
qed

lemma clock_play: "clock (play bs s) = clock s + 32 * length bs"
  by (induction bs arbitrary: s) (simp_all add: half_effect_def)

lemma stack_play: "stack (play bs s) = stack s"
  by (induction bs arbitrary: s) (simp_all add: half_effect_def)

lemma trace_play: "map snd (out_trace (play bs s)) = map snd (out_trace s) @ map pin bs"
  by (induction bs arbitrary: s) (simp_all add: half_effect_def)

lemma drop_trace_play: "map snd (drop (length (out_trace s)) (out_trace (play bs s))) = map pin bs"
  using trace_play[of bs s] by (simp add: drop_map[symmetric])

lemma OUT_PINS_neq0: "OUT_PINS \<noteq> 0" by (simp add: OUT_PINS_def)

lemma demanchester_halves: "demanchester (map pin (halves bs)) = Some bs"
  by (induction bs) (simp_all add: halves_def pin_def OUT_PINS_neq0)

lemma manchester_bb: "manchester v n = concat (map bb (halves (field_bits v n)))"
proof (induction n arbitrary: v)
  case 0 show ?case by (simp add: field_bits_def halves_def)
next
  case (Suc n)
  have b0: "(v AND 1 \<noteq> 0) = bit v 0" by (simp add: and_one_eq bit_0 mod_2_eq_odd)
  have "[0..<Suc n] = 0 # map Suc [0..<n]"
    by (simp add: upt_conv_Cons[of 0 "Suc n"] map_Suc_upt del: upt_Suc)
  then have sh: "field_bits v (Suc n) = field_bits (drop_bit 1 v) n @ [bit v 0]"
    by (simp add: field_bits_def bit_drop_bit_eq rev_map comp_def del: upt_Suc)
  have "manchester v (Suc n) = manchester (drop_bit 1 v) n @ (if bit v 0 then bb True @ bb False else bb False @ bb True)"
    by (simp only: manchester.simps b0 bb_def if_True if_False)
  then show ?case
    by (simp add: Suc.IH sh halves_def)
qed


lemma halves_append: "halves (a @ b) = halves a @ halves b"
  by (simp add: halves_def)

lemma length_halves: "length (halves bs) = 2 * length bs"
  by (induction bs) (simp_all add: halves_def)

lemma length_field_bits: "length (field_bits v n) = n"
  by (simp add: field_bits_def)

lemma length_frame_bits: "length (frame_bits mfr uid) = 64"
  by (simp add: frame_bits_def length_field_bits)

lemma program_entry:
  "program c (entry k) =
     concat (map bb (halves (frame_bits (mfr_of c k) (uid_of c k)))) @ [RJMP (entry k)]"
  by (cases k)
     (simp_all add: emulateid0_def emulateid1_def emulateid2_def header_def stop_bit_def
        COLUMN_PARITY0_def COLUMN_PARITY1_def COLUMN_PARITY2_def
        manchester_bb frame_bits_def halves_append)

lemma exec_frame:
  "exec c frame_steps (s\<lparr>code := program c (entry k)\<rparr>) =
     Some ((play (halves (frame_bits (mfr_of c k) (uid_of c k))) s)
             \<lparr>code := program c (entry k), clock := clock s + 4098\<rparr>)"
proof -
  let ?hs = "halves (frame_bits (mfr_of c k) (uid_of c k))"
  have len: "16 * length ?hs = 2048"
    by (simp add: length_halves length_frame_bits)
  have a: "exec c (16 * length ?hs) (s\<lparr>code := concat (map bb ?hs) @ [RJMP (entry k)]\<rparr>)
             = Some ((play ?hs s)\<lparr>code := [RJMP (entry k)]\<rparr>)"
    by (rule exec_play)
  have b: "exec c 1 ((play ?hs s)\<lparr>code := [RJMP (entry k)]\<rparr>)
             = Some ((play ?hs s)\<lparr>code := program c (entry k), clock := clock s + 4098\<rparr>)"
    by (simp add: step.simps clock_play length_halves length_frame_bits)
  have "exec c (16 * length ?hs + 1) (s\<lparr>code := concat (map bb ?hs) @ [RJMP (entry k)]\<rparr>)
          = Some ((play ?hs s)\<lparr>code := program c (entry k), clock := clock s + 4098\<rparr>)"
    by (simp only: exec_add a b option.case)
  then show ?thesis
    by (simp only: len frame_steps_def program_entry[symmetric]) simp
qed

lemma first_frame_eq: "first_frame c k s = Some (frame_bits (mfr_of c k) (uid_of c k))"
  by (simp add: first_frame_def emitted_def exec_frame drop_trace_play demanchester_halves)

section \<open>The bits of a frame\<close>

lemma upt5: "[0..<5] = [0,1,2,3,4]" by code_simp
lemma upt4: "[0..<4] = [0,1,2,3]" by code_simp
lemma upt9: "[0..<9] = [0,1,2,3,4,5,6,7,8]" by code_simp
lemma upt10: "[0..<10] = [0,1,2,3,4,5,6,7,8,9]" by code_simp

lemma bit_ROW_PARITY:
  "bit (ROW_PARITY n) j =
     (if j = 0 then bit (n XOR drop_bit 1 n XOR drop_bit 2 n XOR drop_bit 3 n) 0
      else bit (n AND 0xF) (j - 1))"
  by (simp only: ROW_PARITY_def bit_or_iff bit_and_iff bit_push_bit_iff_nat bit_1_iff) auto

lemma bit_15: "bit (15::nat) k = (k < 4)"
  using bit_mask_iff[of 4 k, where ?'a = nat] by (simp add: mask_eq_exp_minus_1)

lemma bit_ROW_PARITY_0:
  "bit (ROW_PARITY n) 0 = (bit n 0 \<noteq> (bit n 1 \<noteq> (bit n 2 \<noteq> bit n 3)))"
proof -
  have "bit (ROW_PARITY n) 0 = bit (n XOR drop_bit 1 n XOR drop_bit 2 n XOR drop_bit 3 n) 0"
    by (simp only: bit_ROW_PARITY simp_thms if_True)
  also have "\<dots> = (bit n 0 \<noteq> (bit (drop_bit 1 n) 0 \<noteq> (bit (drop_bit 2 n) 0 \<noteq> bit (drop_bit 3 n) 0)))"
    by (simp only: bit_xor_iff)
  also have "\<dots> = (bit n 0 \<noteq> (bit n 1 \<noteq> (bit n 2 \<noteq> bit n 3)))"
    by (simp only: bit_drop_bit_eq comp_def) simp
  finally show ?thesis .
qed

lemma bit_ROW_PARITY_Suc:
  "bit (ROW_PARITY n) (Suc k) = (k < 4 \<and> bit n k)"
  by (simp only: bit_ROW_PARITY bit_and_iff bit_15) auto

lemma field_bits_5: "field_bits v 5 = [bit v 4, bit v 3, bit v 2, bit v 1, bit v 0]"
  by (simp add: field_bits_def upt5)

lemma field_bits_4: "field_bits v 4 = [bit v 3, bit v 2, bit v 1, bit v 0]"
  by (simp add: field_bits_def upt4)

lemma bit_511: "bit (511::nat) k = (k < 9)"
  using bit_mask_iff[of 9 k, where ?'a = nat] by (simp add: mask_eq_exp_minus_1)

lemma replicate_9: "replicate 9 x = [x, x, x, x, x, x, x, x, x]"
  by (simp add: numeral_eq_Suc)

lemma field_bits_header: "field_bits 0x1FF 9 = replicate 9 True"
  by (simp only: field_bits_def upt9 replicate_9 rev.simps list.map append.simps bit_511) simp

lemma field_bits_stop [simp]: "field_bits 0 (Suc 0) = [False]"
  by (simp add: field_bits_def)

lemma row_bits:
  "field_bits (ROW_PARITY n) 5 =
     [bit n 3, bit n 2, bit n 1, bit n 0, (bit n 0 \<noteq> (bit n 1 \<noteq> (bit n 2 \<noteq> bit n 3)))]"
proof -
  have "bit (ROW_PARITY n) 4 = bit n 3" "bit (ROW_PARITY n) 3 = bit n 2"
       "bit (ROW_PARITY n) 2 = bit n 1" "bit (ROW_PARITY n) 1 = bit n 0"
    using bit_ROW_PARITY_Suc[of n 3] bit_ROW_PARITY_Suc[of n 2] bit_ROW_PARITY_Suc[of n 1]
      bit_ROW_PARITY_Suc[of n 0] by (simp_all add: eval_nat_numeral)
  then show ?thesis
    by (simp only: field_bits_5 bit_ROW_PARITY_0)
qed


lemma frame_bits_rows:
  "frame_bits mfr uid =
     replicate 9 True @
     concat (map (\<lambda>n. field_bits (ROW_PARITY n) 5)
       [drop_bit 4 mfr, mfr, drop_bit 28 uid, drop_bit 24 uid, drop_bit 20 uid, drop_bit 16 uid,
        drop_bit 12 uid, drop_bit 8 uid, drop_bit 4 uid, uid]) @
     field_bits (COLUMN_PARITY mfr uid) 4 @ [False]"
  by (simp add: frame_bits_def field_bits_header field_bits_stop)

lemma rows_frame_bits:
  "rows (frame_bits mfr uid) =
     map (\<lambda>n. field_bits (ROW_PARITY n) 5)
       [drop_bit 4 mfr, mfr, drop_bit 28 uid, drop_bit 24 uid, drop_bit 20 uid, drop_bit 16 uid,
        drop_bit 12 uid, drop_bit 8 uid, drop_bit 4 uid, uid]"
  by (simp add: rows_def upt10 frame_bits_rows replicate_9 row_bits)

lemma tail_frame_bits:
  "drop 59 (frame_bits mfr uid) = field_bits (COLUMN_PARITY mfr uid) 4 @ [False]"
  by (simp add: frame_bits_rows replicate_9 row_bits)

lemma head_frame_bits:
  "take 9 (frame_bits mfr uid) = replicate 9 True"
  by (simp add: frame_bits_rows)


lemma ones_Cons: "ones (b # bs) = (if b then Suc (ones bs) else ones bs)"
  by (simp add: ones_def)

lemma even_parity_xor: "even_parity bs = (\<not> xor_all bs)"
  by (induction bs) (auto simp add: even_parity_def ones_Cons ones_def)

lemma xor_all_snoc: "xor_all (bs @ [b]) = (xor_all bs \<noteq> b)"
  by (induction bs) auto

lemma even_parity_row: "even_parity (field_bits (ROW_PARITY n) 5)"
  by (simp only: row_bits even_parity_xor xor_all.simps) auto

lemma bit_COLUMN_PARITY:
  "bit (COLUMN_PARITY mfr uid) j = xor_all (map (\<lambda>n. bit n j) (nibble_args mfr uid))"
  by (simp only: COLUMN_PARITY_def nibble_args_def bit_xor_iff list.map xor_all.simps) simp

lemma rows_frame_bits': "rows (frame_bits mfr uid) = map (\<lambda>n. field_bits (ROW_PARITY n) 5) (nibble_args mfr uid)"
  by (simp only: rows_frame_bits nibble_args_def)

lemma column_frame_bits:
  "map (column (frame_bits mfr uid)) [0..<4] =
     map (\<lambda>j. map (\<lambda>n. bit n j) (nibble_args mfr uid)) [3, 2, 1, 0]"
  by (simp add: column_def rows_frame_bits' row_bits upt4)

lemma colpar_frame_bits:
  "map (\<lambda>i. frame_bits mfr uid ! (59 + i)) [0..<4] =
     map (\<lambda>j. bit (COLUMN_PARITY mfr uid) j) [3, 2, 1, 0]"
proof -
  have "frame_bits mfr uid ! (59 + i) = (field_bits (COLUMN_PARITY mfr uid) 4 @ [False]) ! i" for i
    using nth_drop[of 59 "frame_bits mfr uid" i] by (simp add: length_frame_bits tail_frame_bits)
  then show ?thesis
    by (simp add: upt4 field_bits_4)
qed

lemma foldl_bits: "foldl (\<lambda>a b. 2 * a + (if b then 1 else 0)) a bs = a * 2 ^ length bs + bits_val bs"
proof (induction bs arbitrary: a)
  case Nil show ?case by (simp add: bits_val_def)
next
  case (Cons b bs)
  show ?case
    using Cons.IH[of "2 * a + (if b then 1 else 0)"] Cons.IH[of "(if b then 1 else 0)"]
    by (simp add: bits_val_def algebra_simps)
qed

lemma bits_val_Cons: "bits_val (b # bs) = (if b then 2 ^ length bs else 0) + bits_val bs"
  using foldl_bits[of "if b then 1 else 0" bs] by (simp add: bits_val_def)

lemma field_bits_Suc: "field_bits v (Suc n) = bit v n # field_bits v n"
  by (simp add: field_bits_def)

lemma bits_val_field_bits: "bits_val (field_bits v n) = take_bit n v"
proof (induction n)
  case 0 show ?case by (simp add: field_bits_def bits_val_def)
next
  case (Suc n)
  show ?case
    by (simp add: field_bits_Suc bits_val_Cons take_bit_Suc_from_most length_field_bits Suc.IH)
qed

lemma field_bits_add: "field_bits v (m + n) = field_bits (drop_bit n v) m @ field_bits v n"
proof (induction m)
  case 0 show ?case by (simp add: field_bits_def)
next
  case (Suc m)
  show ?case
    using Suc.IH by (simp add: field_bits_Suc bit_drop_bit_eq add.commute)
qed

lemma take4_row: "take 4 (field_bits (ROW_PARITY n) 5) = field_bits n 4"
  by (simp add: row_bits field_bits_4)

lemma mfr_nibbles: "field_bits (drop_bit 4 mfr) 4 @ field_bits mfr 4 = field_bits mfr 8"
  using field_bits_add[of mfr 4 4] by simp

lemma uid_nibbles:
  "field_bits (drop_bit 28 uid) 4 @ field_bits (drop_bit 24 uid) 4 @ field_bits (drop_bit 20 uid) 4 @
   field_bits (drop_bit 16 uid) 4 @ field_bits (drop_bit 12 uid) 4 @ field_bits (drop_bit 8 uid) 4 @
   field_bits (drop_bit 4 uid) 4 @ field_bits uid 4 = field_bits uid 32"
  using field_bits_add[of uid 4 4] field_bits_add[of uid 4 8] field_bits_add[of uid 4 12]
    field_bits_add[of uid 4 16] field_bits_add[of uid 4 20] field_bits_add[of uid 4 24]
    field_bits_add[of uid 4 28]
  by simp

lemma decode_frame_bits:
  "decode (frame_bits mfr uid) = Some (take_bit 8 mfr, take_bit 32 uid)"
proof -
  let ?f = "frame_bits mfr uid"
  have a: "length ?f = 64" by (rule length_frame_bits)
  have b: "take 9 ?f = replicate 9 True" by (rule head_frame_bits)
  have "drop 63 ?f = drop 4 (drop 59 ?f)" by simp
  then have c: "drop 63 ?f = [False]"
    by (simp only: tail_frame_bits) (simp add: length_field_bits)
  have d: "list_all even_parity (rows ?f)"
    by (simp add: rows_frame_bits even_parity_row)
  have "map (\<lambda>i. even_parity (column ?f i @ [?f ! (59 + i)])) [0..<4] = replicate 4 True"
    using column_frame_bits[of mfr uid] colpar_frame_bits[of mfr uid]
    by (simp add: upt4 even_parity_xor xor_all_snoc bit_COLUMN_PARITY numeral_eq_Suc)
  then have e: "list_all (\<lambda>i. even_parity (column ?f i @ [?f ! (59 + i)])) [0..<4]"
    by (simp add: upt4 numeral_eq_Suc)
  have m: "bits_val (concat (map (take 4) (take 2 (rows ?f)))) = take_bit 8 mfr"
    by (simp add: rows_frame_bits take4_row mfr_nibbles bits_val_field_bits)
  have u: "bits_val (concat (map (take 4) (drop 2 (rows ?f)))) = take_bit 32 uid"
    by (simp add: rows_frame_bits take4_row uid_nibbles bits_val_field_bits)
  show ?thesis
    by (simp only: decode_def a b c d e m u simp_thms if_True)
qed

lemma frame_bits_low:
  "frame_bits (take_bit 8 mfr) (take_bit 32 uid) = frame_bits mfr uid"
  by (simp add: frame_bits_rows row_bits field_bits_4 bit_COLUMN_PARITY nibble_args_def
        bit_drop_bit_eq bit_take_bit_iff)

lemma first_frame_low: "first_frame (low_bits c) k s = first_frame c k s"
  by (cases k) (simp_all add: first_frame_eq low_bits_def frame_bits_low)

lemma take_bit_4_and: "take_bit 4 (n::nat) = n AND 0xF"
  using take_bit_eq_mask[of 4 n] by (simp add: mask_eq_exp_minus_1)

lemma column_parity_nibbles:
  "take_bit 4 (COLUMN_PARITY mfr uid) = foldr (\<lambda>a b. a XOR b) (payload_nibbles mfr uid) 0"
  by (simp add: COLUMN_PARITY_def payload_nibbles_def nibble_args_def take_bit_4_and[symmetric])

lemma ROW_PARITY_less: "ROW_PARITY n < 32"
proof -
  have "take_bit 5 (ROW_PARITY n) = ROW_PARITY n"
    by (rule bit_eqI) (auto simp add: bit_take_bit_iff bit_ROW_PARITY bit_and_iff bit_15)
  then show ?thesis
    using take_bit_nat_less_exp[of 5 "ROW_PARITY n"] by simp
qed

lemma ROW_PARITY_parity:
  "ROW_PARITY n = push_bit 1 (n AND 0xF) OR (if odd (ones (field_bits n 4)) then 1 else 0)"
proof -
  have "odd (ones (field_bits n 4)) = xor_all (field_bits n 4)"
    using even_parity_xor[of "field_bits n 4"] by (simp add: even_parity_def)
  also have "\<dots> = bit (ROW_PARITY n) 0"
    by (simp only: field_bits_4 xor_all.simps bit_ROW_PARITY_0) auto
  also have "\<dots> = odd (n XOR drop_bit 1 n XOR drop_bit 2 n XOR drop_bit 3 n)"
    using bit_ROW_PARITY[of n 0] by (simp only: simp_thms if_True bit_0)
  finally have "(if odd (ones (field_bits n 4)) then 1 else 0) = (n XOR drop_bit 1 n XOR drop_bit 2 n XOR drop_bit 3 n) AND 1"
    by (simp add: and_one_eq mod_2_eq_odd)
  then show ?thesis
    by (simp only: ROW_PARITY_def)
qed

lemma replicate_10: "replicate 10 x = [x, x, x, x, x, x, x, x, x, x]"
  by (simp add: numeral_eq_Suc)

lemma length_manchester: "length (manchester v n) = 4 * n"
  by (induction n arbitrary: v) (simp_all add: baseband_0_def baseband_1_def)

section \<open>Repeated passes and the selector loop\<close>

lemma code_pass: "code (pass c k s) = program c (entry k)"
  by (simp add: pass_def)

lemma stack_pass: "stack (pass c k s) = stack s"
  by (simp add: pass_def stack_play)

lemma clock_pass: "clock (pass c k s) = clock s + 4098"
  by (simp add: pass_def)

lemma trace_pass:
  "map snd (out_trace (pass c k s)) =
     map snd (out_trace s) @ map pin (halves (frame_bits (mfr_of c k) (uid_of c k)))"
  by (simp add: pass_def trace_play)

lemma exec_pass:
  "code s = program c (entry k) \<Longrightarrow> exec c frame_steps s = Some (pass c k s)"
proof -
  assume a: "code s = program c (entry k)"
  have "s\<lparr>code := program c (entry k)\<rparr> = s"
    using a by (simp add: a[symmetric])
  then show ?thesis
    using exec_frame[where c = c and s = s and k = k] by (simp add: pass_def)
qed

lemma exec_passes:
  "code s = program c (entry k) \<Longrightarrow> exec c (j * frame_steps) s = Some ((pass c k ^^ j) s)"
proof (induction j arbitrary: s)
  case 0 show ?case by simp
next
  case (Suc j)
  have "exec c (frame_steps + j * frame_steps) s = Some ((pass c k ^^ j) (pass c k s))"
    by (simp only: exec_add exec_pass[OF Suc.prems] option.case Suc.IH[OF code_pass])
  then show ?case by (simp add: funpow_swap1)
qed

lemma code_passes: "code s = program c (entry k) \<Longrightarrow> code ((pass c k ^^ j) s) = program c (entry k)"
  by (induction j) (simp_all add: code_pass)

lemma stack_passes: "stack ((pass c k ^^ j) s) = stack s"
  by (induction j) (simp_all add: stack_pass)

lemma clock_passes: "clock ((pass c k ^^ j) s) = clock s + j * 4098"
  by (induction j) (simp_all add: clock_pass)

lemma trace_passes:
  "map snd (out_trace ((pass c k ^^ j) s)) =
     map snd (out_trace s) @ map pin (halves (concat (replicate j (frame_bits (mfr_of c k) (uid_of c k)))))"
proof (induction j)
  case 0 show ?case by (simp add: halves_def)
next
  case (Suc j)
  let ?f = "frame_bits (mfr_of c k) (uid_of c k)"
  have "concat (replicate (Suc j) ?f) = concat (replicate j ?f @ [?f])"
    by (simp add: replicate_append_same)
  then have "halves (concat (replicate (Suc j) ?f)) = halves (concat (replicate j ?f)) @ halves ?f"
    by (simp add: halves_append)
  then show ?case
    by (simp add: trace_pass Suc.IH)
qed

lemma exec_prefix: "exec c (m + n) s = Some t \<Longrightarrow> \<exists>u. exec c m s = Some u"
  by (simp add: exec_add split: option.splits)

lemma exec_forever:
  assumes "code s = program c (entry k)"
  shows "\<exists>t. exec c n s = Some t"
proof -
  have "n \<le> n * frame_steps" by (simp add: frame_steps_def)
  then obtain d where d: "n * frame_steps = n + d"
    using le_Suc_ex by blast
  have "exec c (n + d) s = Some ((pass c k ^^ n) s)"
    using exec_passes[OF assms, of n] d by simp
  then show ?thesis by (rule exec_prefix)
qed

lemma last_program_entry: "last (program c (entry k)) = RJMP (entry k)"
  by (simp add: program_entry)

lemma run_append: "run c (ps @ qs) y = run c qs (run c ps y)"
  by (induction ps arbitrary: y) simp_all

lemma run_in_call:
  "in_call y \<Longrightarrow> exec c (length ps) (machine y) = Some t \<Longrightarrow> run c ps y = y\<lparr>machine := t\<rparr>"
proof (induction ps arbitrary: y)
  case Nil
  then show ?case by simp
next
  case (Cons p ps)
  from Cons.prems(2) obtain m where m: "step c (machine y) = Some m" and e: "exec c (length ps) m = Some t"
    by (auto split: option.splits)
  have "tick c p y = y\<lparr>machine := m\<rparr>"
    using Cons.prems(1) m by (simp add: tick_def)
  moreover have "run c ps (y\<lparr>machine := m\<rparr>) = (y\<lparr>machine := m\<rparr>)\<lparr>machine := t\<rparr>"
    by (rule Cons.IH) (simp_all add: Cons.prems(1) e)
  ultimately show ?case by simp
qed

lemma first_match_None: "spec_first_match p = None \<Longrightarrow> \<not> selected p k"
  by (cases k) (simp_all add: spec_first_match_def split: if_splits)

lemma all_slot: "(\<forall>k. P k) = (P Slot0 \<and> P Slot1 \<and> P Slot2)"
proof
  assume "\<forall>k. P k" then show "P Slot0 \<and> P Slot1 \<and> P Slot2" by simp
next
  assume a: "P Slot0 \<and> P Slot1 \<and> P Slot2"
  show "\<forall>k. P k"
  proof
    fix k show "P k" using a by (cases k) simp_all
  qed
qed

lemma emitted_manchester:
  "Option.bind (emitted c (32 * n) (s\<lparr>code := manchester v n @ rest\<rparr>)) demanchester
     = Some (map (bit v) (rev [0..<n]))"
proof -
  let ?hs = "halves (field_bits v n)"
  have l: "16 * length ?hs = 32 * n"
    by (simp add: length_halves length_field_bits)
  have "exec c (16 * length ?hs) (s\<lparr>code := concat (map bb ?hs) @ rest\<rparr>) = Some ((play ?hs s)\<lparr>code := rest\<rparr>)"
    by (rule exec_play)
  then have "exec c (32 * n) (s\<lparr>code := manchester v n @ rest\<rparr>) = Some ((play ?hs s)\<lparr>code := rest\<rparr>)"
    by (simp only: l manchester_bb)
  then show ?thesis
    by (simp add: emitted_def drop_trace_play demanchester_halves field_bits_def)
qed

lemma stamps_play:
  "map fst (out_trace (play bs s)) =
     map fst (out_trace s) @ map (\<lambda>i. clock s + 6 + 32 * i) [0..<length bs]"
proof (induction bs arbitrary: s)
  case Nil show ?case by simp
next
  case (Cons b bs)
  have "[0..<Suc (length bs)] = 0 # map Suc [0..<length bs]"
    by (simp add: upt_conv_Cons[of 0 "Suc (length bs)"] map_Suc_upt del: upt_Suc)
  then show ?case
    by (simp add: Cons.IH half_effect_def comp_def del: upt_Suc)
qed

lemma stamps_pass:
  "map fst (out_trace (pass c k s)) =
     map fst (out_trace s) @ map (\<lambda>i. clock s + 6 + 32 * i) [0..<128]"
  by (simp add: pass_def stamps_play length_halves length_frame_bits)

lemma header_first_half:
  "\<exists>rest. program c (entry k) = bb True @ rest"
proof -
  have "frame_bits (mfr_of c k) (uid_of c k) = True # tl (frame_bits (mfr_of c k) (uid_of c k))"
    by (simp add: frame_bits_rows replicate_9)
  then obtain r where "frame_bits (mfr_of c k) (uid_of c k) = True # r" by blast
  then show ?thesis
    by (simp add: program_entry halves_def)
qed

lemma exec_pass_next:
  assumes "code s = program c (entry k)"
  shows "\<exists>rest. exec c (frame_steps + 16) s = Some ((half_effect True (pass c k s))\<lparr>code := rest\<rparr>)"
proof -
  obtain rest where r: "program c (entry k) = bb True @ rest"
    using header_first_half by blast
  have "pass c k s = (pass c k s)\<lparr>code := bb True @ rest\<rparr>"
    using code_pass[of c k s] r by simp
  then have "exec c 16 (pass c k s) = Some ((half_effect True (pass c k s))\<lparr>code := rest\<rparr>)"
    using exec_bb[where c = c and s = "pass c k s" and b = True and rest = rest] by simp
  then have "exec c (frame_steps + 16) s = Some ((half_effect True (pass c k s))\<lparr>code := rest\<rparr>)"
    by (simp only: exec_add exec_pass[OF assms] option.case)
  then show ?thesis by blast
qed

lemma stamps_pass_next:
  assumes "code s = program c (entry k)"
  shows "map_option (\<lambda>t. map fst (out_trace t)) (exec c (frame_steps + 16) s) =
           Some (map fst (out_trace s) @ map (\<lambda>i. clock s + 6 + 32 * i) [0..<128] @ [clock s + 4104])"
proof -
  obtain rest where "exec c (frame_steps + 16) s = Some ((half_effect True (pass c k s))\<lparr>code := rest\<rparr>)"
    using exec_pass_next[OF assms] by blast
  then show ?thesis
    by (simp add: half_effect_def stamps_pass clock_pass)
qed

lemma tick_skip: "\<not> in_call y \<Longrightarrow> \<not> selected p (pos y) \<Longrightarrow> tick c p y = y\<lparr>pos := next_if (pos y)\<rparr>"
  by (simp add: tick_def)

lemma tick_enter:
  "\<not> in_call y \<Longrightarrow> selected p (pos y) \<Longrightarrow>
     tick c p y = y\<lparr>machine := (machine y)\<lparr>stack := [], code := program c (entry (pos y))\<rparr>,
                    in_call := True\<rparr>"
  by (simp add: tick_def)

lemma run_idle_from:
  "idle_from q qs \<Longrightarrow>
     run c qs \<lparr>machine = m, pos = q, in_call = False\<rparr>
       = \<lparr>machine = m, pos = (next_if ^^ length qs) q, in_call = False\<rparr>"
proof (induction qs arbitrary: q)
  case Nil
  show ?case by simp
next
  case (Cons p qs)
  have "tick c p \<lparr>machine = m, pos = q, in_call = False\<rparr> = \<lparr>machine = m, pos = next_if q, in_call = False\<rparr>"
    using Cons.prems by (simp add: tick_skip)
  moreover have "idle_from (next_if q) qs" using Cons.prems by simp
  ultimately show ?case
    using Cons.IH[of "next_if q"] by (simp add: funpow_swap1)
qed

lemma run_first_checked:
  assumes "idle_from q qs" and "selected p ((next_if ^^ length qs) q)"
    and "exec c (length rs) (m\<lparr>stack := [], code := program c (entry ((next_if ^^ length qs) q))\<rparr>) = Some t"
  shows "run c (qs @ p # rs) \<lparr>machine = m, pos = q, in_call = False\<rparr>
           = \<lparr>machine = t, pos = (next_if ^^ length qs) q, in_call = True\<rparr>"
proof -
  let ?k = "(next_if ^^ length qs) q"
  let ?y = "\<lparr>machine = m, pos = ?k, in_call = False\<rparr>"
  let ?z = "\<lparr>machine = m\<lparr>stack := [], code := program c (entry ?k)\<rparr>, pos = ?k, in_call = True\<rparr>"
  have "tick c p ?y = ?z"
    using assms(2) by (simp add: tick_enter)
  then have "run c (qs @ p # rs) \<lparr>machine = m, pos = q, in_call = False\<rparr> = run c rs ?z"
    by (simp add: run_append run_idle_from[OF assms(1)])
  also have "\<dots> = ?z\<lparr>machine := t\<rparr>"
    by (rule run_in_call) (simp_all add: assms(3))
  finally show ?thesis by simp
qed

lemma idle_from_append:
  "idle_from q (xs @ ys) = (idle_from q xs \<and> idle_from ((next_if ^^ length xs) q) ys)"
  by (induction xs arbitrary: q) (simp_all add: funpow_swap1)

lemma idle_none: "\<forall>x \<in> set ps. spec_first_match x = None \<Longrightarrow> idle_from q ps"
  by (induction ps arbitrary: q) (simp_all add: first_match_None)

lemma first_checked_steady:
  "spec_first_checked q p = Some k \<Longrightarrow>
     idle_from q (replicate ((select_pin k + 3 - select_pin q) mod 3) p)
     \<and> (next_if ^^ ((select_pin k + 3 - select_pin q) mod 3)) q = k \<and> selected p k"
proof -
  have r1: "replicate (Suc 0) p = [p]" and r2: "replicate 2 p = [p, p]"
    by (simp_all add: numeral_eq_Suc)
  have f2: "(next_if ^^ 2) x = next_if (next_if x)" for x
    by (simp add: numeral_eq_Suc)
  assume a: "spec_first_checked q p = Some k"
  show ?thesis
  proof (cases q)
    case Slot0
    with a show ?thesis
      by (cases k) (simp_all add: spec_first_checked_def r1 r2 f2 split: if_splits)
  next
    case Slot1
    with a show ?thesis
      by (cases k) (simp_all add: spec_first_checked_def r1 r2 f2 split: if_splits)
  next
    case Slot2
    with a show ?thesis
      by (cases k) (simp_all add: spec_first_checked_def r1 r2 f2 split: if_splits)
  qed
qed

lemma first_checked_Slot0: "spec_first_checked Slot0 p = spec_first_match p"
  by (simp add: spec_first_checked_def spec_first_match_def)

lemma only_selected_checked:
  "selected p k \<Longrightarrow> \<forall>l. l \<noteq> k \<longrightarrow> \<not> selected p l \<Longrightarrow> spec_first_checked q p = Some k"
  by (cases q; cases k) (auto simp add: spec_first_checked_def)

lemma emitted_pinned:
  assumes "code s = program c (entry k)"
  shows "\<exists>w f. emitted c (j * frame_steps) s = Some w
         \<and> length w = 128 * j \<and> demanchester w = Some (concat (replicate j f))
         \<and> first_frame c k s' = Some f \<and> length f = 64
         \<and> decode f = Some (take_bit 8 (mfr_of c k), take_bit 32 (uid_of c k))"
proof -
  let ?f = "frame_bits (mfr_of c k) (uid_of c k)"
  let ?t = "(pass c k ^^ j) s"
  let ?w = "map pin (halves (concat (replicate j ?f)))"
  have "map snd (drop (length (out_trace s)) (out_trace ?t))
          = drop (length (map snd (out_trace s))) (map snd (out_trace ?t))"
    by (simp add: drop_map)
  also have "\<dots> = ?w"
    by (simp only: trace_passes) simp
  finally have e: "emitted c (j * frame_steps) s = Some ?w"
    by (simp add: emitted_def exec_passes[OF assms])
  have "length (concat (replicate j ?f)) = 64 * j"
    by (induction j) (simp_all add: length_frame_bits)
  then have l: "length ?w = 128 * j"
    by (simp add: length_halves)
  have d: "demanchester ?w = Some (concat (replicate j ?f))"
    by (rule demanchester_halves)
  show ?thesis
    apply (rule exI[of _ ?w])
    apply (rule exI[of _ ?f])
    apply (simp only: e l d first_frame_eq length_frame_bits decode_frame_bits simp_thms)
    done
qed

section \<open>The Manchester encoder\<close>

text \<open>
  C5. The expansion of \<open>manchester v n\<close> is, for the bit positions \<open>n - 1\<close> down to \<open>0\<close>
  of \<open>v\<close> in this order, the pair of half-bit invocations of that bit: a set bit is
  \<open>baseband_1\<close> then \<open>baseband_0\<close>, a clear bit is \<open>baseband_0\<close> then \<open>baseband_1\<close>.
  The two halves of a bit always differ, the header and the stop bit are expansions of
  the same macro, and a field of width zero expands to nothing. Run on the machine, the
  expansion writes a signal that the reader's one rule decodes to these bits, most
  significant first.
\<close>

theorem manchester_msb_first:
  "manchester v n =
     concat (map (\<lambda>i. if bit v i then baseband_1 @ baseband_0 else baseband_0 @ baseband_1)
                 (rev [0..<n]))
   \<and> manchester v 0 = []
   \<and> baseband_1 \<noteq> baseband_0
   \<and> header = manchester 0x1FF 9 \<and> stop_bit = manchester 0 1
   \<and> Option.bind (emitted c (32 * n) (s\<lparr>code := manchester v n @ rest\<rparr>)) demanchester
       = Some (map (bit v) (rev [0..<n]))"
proof -
  have "manchester v n =
     concat (map (\<lambda>i. if bit v i then baseband_1 @ baseband_0 else baseband_0 @ baseband_1)
                 (rev [0..<n]))"
  proof (induction n arbitrary: v)
    case 0
    show ?case by simp
  next
    case (Suc n)
    have b0: "(v AND 1 \<noteq> 0) = bit v 0"
      by (simp add: and_one_eq bit_0 mod_2_eq_odd)
    have sh: "map (\<lambda>i. if bit (drop_bit 1 v) i then baseband_1 @ baseband_0
                        else baseband_0 @ baseband_1) (rev [0..<n])
            = map (\<lambda>i. if bit v i then baseband_1 @ baseband_0
                        else baseband_0 @ baseband_1) (rev (map Suc [0..<n]))"
      by (simp add: bit_drop_bit_eq rev_map comp_def)
    show ?case
      apply (simp only: manchester.simps Suc.IH sh b0)
      apply (simp add: upt_conv_Cons[of 0 "Suc n"] map_Suc_upt del: upt_Suc)
      done
  qed
  moreover have "baseband_1 \<noteq> baseband_0"
    by (simp add: baseband_0_def baseband_1_def)
  ultimately show ?thesis
    using emitted_manchester[where c = c and n = n and s = s and v = v and rest = rest] by (simp add: header_def stop_bit_def)
qed

section \<open>The baseband bit emitter\<close>

text \<open>
  C2. An invocation of \<open>baseband_0\<close> and an invocation of \<open>baseband_1\<close> each run 16
  instructions, take exactly 32 clock cycles from the \<^verbatim>\<open>rcall\<close> to the instruction that
  follows the invocation, and write DDRB once, 6 cycles after the start; the two differ
  only in the value written. Of the 32 cycles, 30 are the called routine with the call
  and the return, and 2 the \<^verbatim>\<open>rjmp .+0\<close> after it.
\<close>

theorem baseband_takes_32_cycles:
  "exec c 16 (s\<lparr>code := baseband_0 @ rest\<rparr>) =
     Some (s\<lparr>code := rest, r16 := 0, DDRB := 0, clock := clock s + 32,
             out_trace := out_trace s @ [(clock s + 6, 0)]\<rparr>)
   \<and> exec c 16 (s\<lparr>code := baseband_1 @ rest\<rparr>) =
     Some (s\<lparr>code := rest, r16 := OUT_PINS, DDRB := OUT_PINS, clock := clock s + 32,
             out_trace := out_trace s @ [(clock s + 6, OUT_PINS)]\<rparr>)
   \<and> map_option clock (exec c 15 (s\<lparr>code := RCALL Lbaseband30_0 # rest\<rparr>)) = Some (clock s + 30)
   \<and> map_option clock (exec c 15 (s\<lparr>code := RCALL Lbaseband30_1 # rest\<rparr>)) = Some (clock s + 30)"
  by (simp add: baseband_0_def baseband_1_def baseband30_0_def baseband30_1_def
        baseband30_def delay_19 step.simps exec_numeral exec_1)

section \<open>The parity generator\<close>

text \<open>
  C3. For every argument \<open>n\<close>, \<open>ROW_PARITY n\<close> is the low nibble of \<open>n\<close> shifted left by
  one, OR'd with 1 exactly when the nibble has an odd number of set bits; it fits in five
  bits, and the five bits transmitted for it contain an even number of ones. So do all
  ten row groups of the frame that any slot emits.
\<close>

theorem row_parity_even:
  "ROW_PARITY n = push_bit 1 (n AND 0xF) OR (if odd (ones (field_bits n 4)) then 1 else 0)
   \<and> ROW_PARITY n < 32
   \<and> even (ones (field_bits (ROW_PARITY n) 5))
   \<and> map_option (\<lambda>f. map even_parity (rows f)) (first_frame c k s) = Some (replicate 10 True)"
proof -
  have "even (ones (field_bits (ROW_PARITY n) 5))"
    using even_parity_row[of n] by (simp add: even_parity_def)
  moreover have "map_option (\<lambda>f. map even_parity (rows f)) (first_frame c k s) = Some (replicate 10 True)"
    by (simp add: first_frame_eq rows_frame_bits even_parity_row replicate_10)
  ultimately show ?thesis
    using ROW_PARITY_parity[of n] ROW_PARITY_less[of n] by simp
qed

text \<open>
  C4. In the frame \<open>f\<close> that a slot emits, the column parity bits are the bits 59 to 62.
  The bit at position \<open>59 + i\<close> is the XOR of the bits at position \<open>i\<close> of the ten row
  groups, for each \<open>i\<close> from 0 to 3; and position \<open>i\<close> of the row groups holds bit
  \<open>3 - i\<close> of the ten payload nibbles, so the column parity bit of bit-column \<open>j\<close> is the
  XOR of bit \<open>j\<close> of every payload nibble.
\<close>

theorem column_parity_is_xor:
  "\<exists>f. first_frame c k s = Some f
     \<and> map (\<lambda>i. f ! (59 + i)) [0..<4] = map (\<lambda>i. xor_all (column f i)) [0..<4]
     \<and> map (column f) [0..<4] =
         map (\<lambda>j. map (\<lambda>n. bit n j) (payload_nibbles (mfr_of c k) (uid_of c k))) [3, 2, 1, 0]"
proof -
  let ?f = "frame_bits (mfr_of c k) (uid_of c k)"
  have a: "first_frame c k s = Some ?f" by (rule first_frame_eq)
  have m: "bit (n AND 15) j = bit n j" if "j < 4" for n j :: nat
    using that by (simp add: bit_and_iff bit_15)
  have c: "map (column ?f) [0..<4] =
         map (\<lambda>j. map (\<lambda>n. bit n j) (payload_nibbles (mfr_of c k) (uid_of c k))) [3, 2, 1, 0]"
    by (simp add: column_frame_bits payload_nibbles_def m comp_def)
  have "map (\<lambda>i. xor_all (column ?f i)) [0..<4] = map xor_all (map (column ?f) [0..<4])"
    by simp
  also have "\<dots> = map (\<lambda>j. bit (COLUMN_PARITY (mfr_of c k) (uid_of c k)) j) [3, 2, 1, 0]"
    by (simp only: column_frame_bits list.map bit_COLUMN_PARITY)
  finally have b: "map (\<lambda>i. ?f ! (59 + i)) [0..<4] = map (\<lambda>i. xor_all (column ?f i)) [0..<4]"
    by (simp only: colpar_frame_bits)
  from a b c show ?thesis by blast
qed

section \<open>The frame\<close>





text \<open>
  C7, as the specification states it, fails: it takes the unique code to have 40 bits and
  the column parity to run over ten unique-ID nibbles. For the 40-bit unique code
  \<open>2 ^ 32\<close> the column parity of the code differs from the XOR of the specification's
  twelve nibbles, and the frame emitted is that of the unique code 0.
\<close>

theorem unique_code_40_bit_counterexample:
  "take_bit 4 (COLUMN_PARITY 0 (2 ^ 32)) \<noteq> spec_column_parity 0 (2 ^ 32)
   \<and> first_frame (example_ids\<lparr>EM4102_UNIQUE_ID0 := 2 ^ 32\<rparr>) Slot0 reset_state
       = first_frame (example_ids\<lparr>EM4102_UNIQUE_ID0 := 0\<rparr>) Slot0 reset_state"
proof -
  have "take_bit 4 (COLUMN_PARITY 0 (2 ^ 32)) \<noteq> spec_column_parity 0 (2 ^ 32)"
    by (simp add: COLUMN_PARITY_def spec_column_parity_def spec_nibbles_def upt10)
  moreover have "frame_bits m (2 ^ 32) = frame_bits m 0" for m
    using frame_bits_low[of m "2 ^ 32"] frame_bits_low[of m 0] by simp
  ultimately show ?thesis
    by (simp add: first_frame_eq)
qed

text \<open>
  C7, amended. A record is an 8-bit manufacturer code and a 32-bit unique code: the four
  column parity bits are the XOR of the ten payload nibbles (two of the manufacturer
  code, eight of the unique code), the frame depends on the low 8 bits of the
  manufacturer constant and the low 32 bits of the unique-ID constant only, and for all
  constants the frame is defined and decodes to these 40 bits.
\<close>

theorem payload_is_40_bits:
  "take_bit 4 (COLUMN_PARITY mfr uid) = foldr (\<lambda>a b. a XOR b) (payload_nibbles mfr uid) 0
   \<and> length (payload_nibbles mfr uid) = 10
   \<and> first_frame c k s = first_frame (low_bits c) k s
   \<and> Option.bind (first_frame c k s) decode = Some (take_bit 8 (mfr_of c k), take_bit 32 (uid_of c k))"
proof -
  have "first_frame c k s = first_frame (low_bits c) k s"
    by (simp only: first_frame_low)
  moreover have "length (payload_nibbles mfr uid) = 10"
    by (simp add: payload_nibbles_def nibble_args_def)
  moreover have "Option.bind (first_frame c k s) decode
      = Some (take_bit 8 (mfr_of c k), take_bit 32 (uid_of c k))"
    by (simp add: first_frame_eq decode_frame_bits)
  ultimately show ?thesis
    using column_parity_nibbles[of mfr uid] by simp
qed

text \<open>
  C10. Slot 0 and slot 1 read the manufacturer constant \<open>EM4102_MFR_ID\<close>: their code
  agrees up to the end of the second row group, and the first two row groups of their
  frames are the same, those of \<open>EM4102_MFR_ID\<close>. Slot 2 reads \<open>EM4102_MFR_ID2\<close>: its
  frame does not change with \<open>EM4102_MFR_ID\<close>, and the frames of slot 0 and slot 1 do not
  change with \<open>EM4102_MFR_ID2\<close>.
\<close>

theorem slots_0_and_1_share_manufacturer:
  "\<exists>f0 f1 f2. first_frame c Slot0 s = Some f0 \<and> first_frame c Slot1 s = Some f1
     \<and> first_frame c Slot2 s = Some f2
     \<and> take 2 (rows f0) = take 2 (rows f1)
     \<and> take 2 (rows f0) = [field_bits (ROW_PARITY (drop_bit 4 (EM4102_MFR_ID c))) 5,
                            field_bits (ROW_PARITY (EM4102_MFR_ID c)) 5]
     \<and> take 2 (rows f2) = [field_bits (ROW_PARITY (drop_bit 4 (EM4102_MFR_ID2 c))) 5,
                            field_bits (ROW_PARITY (EM4102_MFR_ID2 c)) 5]
     \<and> first_frame (c\<lparr>EM4102_MFR_ID := x\<rparr>) Slot2 s = Some f2
     \<and> first_frame (c\<lparr>EM4102_MFR_ID2 := x\<rparr>) Slot0 s = Some f0
     \<and> first_frame (c\<lparr>EM4102_MFR_ID2 := x\<rparr>) Slot1 s = Some f1
     \<and> take 76 (emulateid0 c) = take 76 (emulateid1 c)"
proof -
  have "take 76 (emulateid0 c) = take 76 (emulateid1 c)"
    by (simp add: emulateid0_def emulateid1_def header_def length_manchester)
  then show ?thesis
    by (simp add: first_frame_eq rows_frame_bits)
qed

section \<open>The protocol state machine and the selector loop\<close>

text \<open>
  What holds of every packet assembler, whatever the build: entered with no return
  address of its own on the stack it is still running after any number \<open>n\<close> of
  instructions; its last instruction is the jump to its own first; after \<open>j\<close> passes it is
  at the header again with the stack as at entry, \<open>j\<close> times 4098 cycles later, having
  written DDRB \<open>128 * j\<close> times, and the writes read as \<open>j\<close> copies of the slot's 64-bit
  frame with nothing in between.
\<close>

lemma packet_assembler_runs_forever:
  "(\<exists>t. exec c n (s\<lparr>stack := [], code := program c (entry k)\<rparr>) = Some t)
   \<and> last (program c (entry k)) = RJMP (entry k)
   \<and> (\<exists>t. exec c (j * frame_steps) (s\<lparr>code := program c (entry k)\<rparr>) = Some t
         \<and> code t = program c (entry k) \<and> stack t = stack s
         \<and> clock t = clock s + j * (128 * 32 + 2))
   \<and> (\<exists>w f. emitted c (j * frame_steps) (s\<lparr>code := program c (entry k)\<rparr>) = Some w
         \<and> length w = 128 * j \<and> demanchester w = Some (concat (replicate j f))
         \<and> first_frame c k s = Some f \<and> length f = 64
         \<and> decode f = Some (take_bit 8 (mfr_of c k), take_bit 32 (uid_of c k)))"
proof -
  let ?s = "s\<lparr>code := program c (entry k)\<rparr>"
  have cs: "code ?s = program c (entry k)" by simp
  have a: "\<exists>t. exec c n (s\<lparr>stack := [], code := program c (entry k)\<rparr>) = Some t"
    by (rule exec_forever) simp
  have b: "exec c (j * frame_steps) ?s = Some ((pass c k ^^ j) ?s)"
    by (rule exec_passes[OF cs])
  have "code ((pass c k ^^ j) ?s) = program c (entry k)"
    by (rule code_passes[OF cs])
  moreover have "stack ((pass c k ^^ j) ?s) = stack s"
    by (simp add: stack_passes)
  moreover have "clock ((pass c k ^^ j) ?s) = clock s + j * (128 * 32 + 2)"
    by (simp add: clock_passes)
  ultimately have c: "\<exists>t. exec c (j * frame_steps) ?s = Some t
         \<and> code t = program c (entry k) \<and> stack t = stack s
         \<and> clock t = clock s + j * (128 * 32 + 2)"
    using b by blast
  have d: "\<exists>w f. emitted c (j * frame_steps) ?s = Some w
         \<and> length w = 128 * j \<and> demanchester w = Some (concat (replicate j f))
         \<and> first_frame c k s = Some f \<and> length f = 64
         \<and> decode f = Some (take_bit 8 (mfr_of c k), take_bit 32 (uid_of c k))"
    by (rule emitted_pinned[OF cs])
  from a c d last_program_entry show ?thesis by blast
qed

text \<open>
  C9. The packet assembler never returns and loops back to the header, but the frames
  do not follow each other without a gap: the closing \<^verbatim>\<open>rjmp\<close> is executed after the last
  half-bit has had its 32 cycles. For the build \<open>example_ids\<close>, slot 0 entered after reset:
  one pass ends at the entry again, with an empty stack, at cycle \<open>4098 = 128 * 32 + 2\<close>;
  DDRB is written at the cycles 6, 38, and so on every 32 cycles up to 4070, the second
  half of the stop bit, and next at cycle 4104, the first half-bit of the next header. The
  last half-bit of the frame is held for 34 cycles, where the source's comment gives every
  half-bit 32.
\<close>

theorem stop_bit_held_34_cycles:
  "map_option (\<lambda>t. (code t = program example_ids (entry Slot0), stack t, clock t))
      (exec example_ids frame_steps (reset_state\<lparr>code := program example_ids (entry Slot0)\<rparr>))
     = Some (True, [], 4098)
   \<and> map_option (\<lambda>t. map fst (out_trace t))
      (exec example_ids (frame_steps + 16) (reset_state\<lparr>code := program example_ids (entry Slot0)\<rparr>))
     = Some (map (\<lambda>i. 6 + 32 * i) [0..<128] @ [4104])
   \<and> map_option (\<lambda>t. drop 126 (map fst (out_trace t)))
      (exec example_ids (frame_steps + 16) (reset_state\<lparr>code := program example_ids (entry Slot0)\<rparr>))
     = Some [4038, 4070, 4104]"
proof -
  let ?e = "reset_state\<lparr>code := program example_ids (entry Slot0)\<rparr>"
  have ce: "code ?e = program example_ids (entry Slot0)" by simp
  have a: "map_option (\<lambda>t. (code t = program example_ids (entry Slot0), stack t, clock t))
      (exec example_ids frame_steps ?e) = Some (True, [], 4098)"
  proof -
    have "stack ?e = []" and "clock ?e = 0" by (simp_all add: reset_state_def)
    then show ?thesis
      by (simp only: exec_pass[OF ce] option.map code_pass stack_pass clock_pass) simp
  qed
  have b: "map_option (\<lambda>t. map fst (out_trace t)) (exec example_ids (frame_steps + 16) ?e)
     = Some (map (\<lambda>i. 6 + 32 * i) [0..<128] @ [4104])"
  proof -
    have "out_trace ?e = []" and "clock ?e = 0" by (simp_all add: reset_state_def)
    then show ?thesis
      by (simp only: stamps_pass_next[OF ce]) simp
  qed
  have "drop 126 (map (\<lambda>i. 6 + 32 * i) [0..<128] @ [4104::nat]) = [4038, 4070, 4104]"
    by (simp add: drop_map upt_rec[of 126] upt_rec[of 127])
  then have "map_option (\<lambda>t. drop 126 (map fst (out_trace t))) (exec example_ids (frame_steps + 16) ?e)
     = Some [4038, 4070, 4104]"
    using b by (auto simp add: option.map_comp comp_def map_option_case split: option.splits)
  with a b show ?thesis by blast
qed

text \<open>
  C8, as the specification states it, fails. Every test of \<^verbatim>\<open>loop()\<close> reads the port
  anew and the tests go round, so slot 0 does not always have priority: with the inputs of
  slot 0 and slot 2 asserted together after the first test has run, the test of slot 2
  comes first and slot 2 is entered. And an input that is asserted but released before
  its test runs dispatches nothing.
\<close>

theorem slot_priority_counterexample:
  "selected 0xFA Slot0 \<and> selected 0xFA Slot2 \<and> spec_first_match 0xFA = Some Slot0
   \<and> run example_ids [0xFF, 0xFA, 0xFA] (boot reset_state)
       = \<lparr>machine = reset_state\<lparr>stack := [], code := program example_ids (entry Slot2)\<rparr>,
          pos = Slot2, in_call = True\<rparr>
   \<and> selected 0xFD Slot1 \<and> \<not> selected 0xFD Slot0 \<and> \<not> selected 0xFD Slot2
   \<and> run example_ids [0xFD, 0xFF, 0xFF] (boot reset_state)
       = \<lparr>machine = reset_state, pos = Slot0, in_call = False\<rparr>"
  by (simp add: selected_def spec_first_match_def tick_def boot_def)

text \<open>
  C8, amended. The tests run cyclically in the order slot 0, slot 1, slot 2. While every
  test finds its own input not asserted, in particular while no select input is
  asserted, the machine state stays what it was and nothing is written to DDRB. The first
  test that finds its input asserted enters that slot's packet assembler, which is never
  left whatever the inputs do afterwards, and which writes that slot's 64-bit frame once
  per pass. For a port value held from some test on, the slot entered is the first
  asserted one in the cyclic order from that test: the only asserted one when exactly one
  is asserted, and, from power-on or the start of a pass, slot 0 before slot 1 before
  slot 2.
\<close>

theorem selector_loop_first_checked:
  "(idle_from Slot0 qs \<longrightarrow>
      run c qs (boot m) = \<lparr>machine = m, pos = test_at (length qs), in_call = False\<rparr>)
   \<and> (idle_from Slot0 qs \<and> selected p (test_at (length qs)) \<longrightarrow>
        (\<exists>t. exec c (length rs)
                 (m\<lparr>stack := [], code := program c (entry (test_at (length qs)))\<rparr>) = Some t
           \<and> run c (qs @ p # rs) (boot m)
               = \<lparr>machine = t, pos = test_at (length qs), in_call = True\<rparr>))
   \<and> (idle_from Slot0 qs \<and> spec_first_checked (test_at (length qs)) p = Some k \<longrightarrow>
        (\<exists>t. exec c (length rs) (m\<lparr>stack := [], code := program c (entry k)\<rparr>) = Some t
           \<and> run c (qs @ replicate ((select_pin k + 3 - select_pin (test_at (length qs))) mod 3 + 1) p @ rs)
                 (boot m)
               = \<lparr>machine = t, pos = k, in_call = True\<rparr>))
   \<and> spec_first_checked Slot0 p = spec_first_match p
   \<and> (selected p k' \<and> (\<forall>l. l \<noteq> k' \<longrightarrow> \<not> selected p l) \<longrightarrow> spec_first_checked q p = Some k')
   \<and> ((\<forall>x \<in> set ps. spec_first_match x = None) \<longrightarrow> idle_from Slot0 ps)
   \<and> (\<exists>w f. emitted c (j * frame_steps) (m\<lparr>stack := [], code := program c (entry k)\<rparr>) = Some w
         \<and> length w = 128 * j \<and> demanchester w = Some (concat (replicate j f))
         \<and> first_frame c k m = Some f \<and> length f = 64
         \<and> decode f = Some (take_bit 8 (mfr_of c k), take_bit 32 (uid_of c k)))"
proof -
  let ?q = "test_at (length qs)"
  have bm: "boot m = \<lparr>machine = m, pos = Slot0, in_call = False\<rparr>"
    by (simp add: boot_def)
  have c1: "idle_from Slot0 qs \<longrightarrow>
      run c qs (boot m) = \<lparr>machine = m, pos = ?q, in_call = False\<rparr>"
    by (simp add: bm run_idle_from test_at_def)
  have c2: "idle_from Slot0 qs \<and> selected p ?q \<longrightarrow>
        (\<exists>t. exec c (length rs) (m\<lparr>stack := [], code := program c (entry ?q)\<rparr>) = Some t
           \<and> run c (qs @ p # rs) (boot m) = \<lparr>machine = t, pos = ?q, in_call = True\<rparr>)"
  proof
    assume a: "idle_from Slot0 qs \<and> selected p ?q"
    obtain t where t: "exec c (length rs) (m\<lparr>stack := [], code := program c (entry ?q)\<rparr>) = Some t"
      using exec_forever[of "m\<lparr>stack := [], code := program c (entry ?q)\<rparr>" c ?q "length rs"] by auto
    have "run c (qs @ p # rs) \<lparr>machine = m, pos = Slot0, in_call = False\<rparr>
            = \<lparr>machine = t, pos = (next_if ^^ length qs) Slot0, in_call = True\<rparr>"
      using a t by (intro run_first_checked) (simp_all add: test_at_def)
    with t show "\<exists>t. exec c (length rs) (m\<lparr>stack := [], code := program c (entry ?q)\<rparr>) = Some t
           \<and> run c (qs @ p # rs) (boot m) = \<lparr>machine = t, pos = ?q, in_call = True\<rparr>"
      by (simp add: bm test_at_def)
  qed
  have c3: "idle_from Slot0 qs \<and> spec_first_checked ?q p = Some k \<longrightarrow>
        (\<exists>t. exec c (length rs) (m\<lparr>stack := [], code := program c (entry k)\<rparr>) = Some t
           \<and> run c (qs @ replicate ((select_pin k + 3 - select_pin ?q) mod 3 + 1) p @ rs) (boot m)
               = \<lparr>machine = t, pos = k, in_call = True\<rparr>)"
  proof
    assume a: "idle_from Slot0 qs \<and> spec_first_checked ?q p = Some k"
    let ?d = "(select_pin k + 3 - select_pin ?q) mod 3"
    let ?qs = "qs @ replicate ?d p"
    from a have st: "idle_from ?q (replicate ?d p)" "(next_if ^^ ?d) ?q = k" "selected p k"
      using first_checked_steady[of ?q p k] by simp_all
    have i: "idle_from Slot0 ?qs"
      using a st(1) by (simp add: idle_from_append test_at_def)
    have "(next_if ^^ (?d + length qs)) Slot0 = (next_if ^^ ?d) ((next_if ^^ length qs) Slot0)"
      by (simp only: funpow_add comp_def)
    then have k: "(next_if ^^ length ?qs) Slot0 = k"
      using st(2) by (simp add: test_at_def add.commute)
    obtain t where t: "exec c (length rs) (m\<lparr>stack := [], code := program c (entry k)\<rparr>) = Some t"
      using exec_forever[of "m\<lparr>stack := [], code := program c (entry k)\<rparr>" c k "length rs"] by auto
    have "run c (?qs @ p # rs) \<lparr>machine = m, pos = Slot0, in_call = False\<rparr>
            = \<lparr>machine = t, pos = (next_if ^^ length ?qs) Slot0, in_call = True\<rparr>"
      using i st(3) t by (intro run_first_checked) (simp_all only: k)
    moreover have "?qs @ p # rs = qs @ replicate (?d + 1) p @ rs"
      by (simp add: replicate_append_same)
    ultimately show "\<exists>t. exec c (length rs) (m\<lparr>stack := [], code := program c (entry k)\<rparr>) = Some t
           \<and> run c (qs @ replicate (?d + 1) p @ rs) (boot m) = \<lparr>machine = t, pos = k, in_call = True\<rparr>"
      using t k by (simp only: bm) simp
  qed
  have c5: "selected p k' \<and> (\<forall>l. l \<noteq> k' \<longrightarrow> \<not> selected p l) \<longrightarrow> spec_first_checked q p = Some k'"
    using only_selected_checked by blast
  have c6: "(\<forall>x \<in> set ps. spec_first_match x = None) \<longrightarrow> idle_from Slot0 ps"
    using idle_none by blast
  have c7: "\<exists>w f. emitted c (j * frame_steps) (m\<lparr>stack := [], code := program c (entry k)\<rparr>) = Some w
         \<and> length w = 128 * j \<and> demanchester w = Some (concat (replicate j f))
         \<and> first_frame c k m = Some f \<and> length f = 64
         \<and> decode f = Some (take_bit 8 (mfr_of c k), take_bit 32 (uid_of c k))"
    by (rule emitted_pinned) simp
  from c1 c2 c3 first_checked_Slot0 c5 c6 c7 show ?thesis
    by (intro conjI)
qed


theorem selector_loop_first_checked_witness:
  "idle_from Slot0 [0xFF] \<and> test_at (length [0xFF :: 8 word]) = Slot1
   \<and> selected 0xFD Slot1 \<and> \<not> selected 0xFD Slot0 \<and> \<not> selected 0xFD Slot2
   \<and> spec_first_checked Slot1 0xFD = Some Slot1 \<and> spec_first_match 0xFF = None
   \<and> run example_ids [0xFF] (boot reset_state)
        = \<lparr>machine = reset_state, pos = Slot1, in_call = False\<rparr>
   \<and> (\<exists>t. exec example_ids 2 (reset_state\<lparr>stack := [], code := program example_ids (entry Slot1)\<rparr>) = Some t
         \<and> run example_ids [0xFF, 0xFD, 0x00, 0xFF] (boot reset_state)
             = \<lparr>machine = t, pos = Slot1, in_call = True\<rparr>)
   \<and> spec_first_checked Slot2 0xFD = Some Slot1
   \<and> idle_from Slot0 [0xFF, 0xFF]
   \<and> spec_first_checked Slot0 0xF8 = Some Slot0
   \<and> (\<exists>t. exec example_ids 2 (reset_state\<lparr>stack := [], code := program example_ids (entry Slot0)\<rparr>) = Some t
         \<and> run example_ids [0xF8, 0xFF, 0xFF] (boot reset_state)
             = \<lparr>machine = t, pos = Slot0, in_call = True\<rparr>)"
proof -
  note T = selector_loop_first_checked[where c = example_ids and m = reset_state and qs = "[0xFF]"
      and p = "0xFD" and rs = "[0x00, 0xFF]" and k = Slot1 and k' = Slot1 and q = Slot2
      and ps = "[0xFF, 0xFF]" and j = 1]
  note U = selector_loop_first_checked[where c = example_ids and m = reset_state and qs = "[]"
      and p = "0xF8" and rs = "[0xFF, 0xFF]" and k = Slot0 and k' = Slot1 and q = Slot2
      and ps = "[]" and j = 1]
  have l2: "length [0x00, 0xFF :: 8 word] = 2" "length [0xFF, 0xFF :: 8 word] = 2"
    by simp_all
  note T = T[unfolded l2]
  note U = U[unfolded l2]
  have i: "idle_from Slot0 [0xFF]" and ta: "test_at (length [0xFF :: 8 word]) = Slot1"
    and t0: "test_at (length ([] :: 8 word list)) = Slot0"
    by (simp_all add: selected_def test_at_def)
  have s: "selected 0xFD Slot1" "\<not> selected 0xFD Slot0" "\<not> selected 0xFD Slot2"
    by (simp_all add: selected_def)
  then have one: "\<forall>l. l \<noteq> Slot1 \<longrightarrow> \<not> selected 0xFD l"
    by (simp add: all_slot)
  have fc: "spec_first_checked Slot1 0xFD = Some Slot1" "spec_first_checked Slot0 0xF8 = Some Slot0"
    by (simp_all add: spec_first_checked_def selected_def)
  have n: "spec_first_match 0xFF = None"
    by (simp add: spec_first_match_def selected_def)
  have a1: "run example_ids [0xFF] (boot reset_state)
        = \<lparr>machine = reset_state, pos = Slot1, in_call = False\<rparr>"
    using T i ta by (simp del: run.simps exec.simps)
  have a2: "\<exists>t. exec example_ids 2 (reset_state\<lparr>stack := [], code := program example_ids (entry Slot1)\<rparr>) = Some t
         \<and> run example_ids [0xFF, 0xFD, 0x00, 0xFF] (boot reset_state)
             = \<lparr>machine = t, pos = Slot1, in_call = True\<rparr>"
    using T i ta s(1) by (simp del: run.simps exec.simps)
  have a3: "spec_first_checked Slot2 0xFD = Some Slot1"
    using T s(1) one by blast
  have a4: "idle_from Slot0 [0xFF, 0xFF]"
    using T n by (simp del: run.simps exec.simps)
  have a5: "\<exists>t. exec example_ids 2 (reset_state\<lparr>stack := [], code := program example_ids (entry Slot0)\<rparr>) = Some t
         \<and> run example_ids [0xF8, 0xFF, 0xFF] (boot reset_state)
             = \<lparr>machine = t, pos = Slot0, in_call = True\<rparr>"
    using U t0 fc(2) by (simp del: run.simps exec.simps)
  from i ta s fc n a1 a2 a3 a4 a5 show ?thesis by blast
qed

end
